theory Spec2Isabelle
  imports Main
begin

section \<open>Values of the host language\<close>

text \<open>
  The library is written in TypeScript and is dynamically typed at run time: one sequence
  may hold values of any kind, and \<open>Seq.map\<close> tests its elements against \<open>undefined\<close>.
  The model therefore uses one type of run-time values.

  \<^item> \<open>Num\<close> carries the integral numbers, \<open>NaN\<close> the not-a-number value; other
    floating-point numbers play no part in the code under study.
  \<^item> \<open>Obj a\<close> is a reference to an object of the caller (an array of the caller
    included), identified by its address \<open>a\<close>; the library never looks inside.
  \<^item> \<open>Arr xs\<close> is an array literal that the library itself evaluates
    (\<open>[index, item]\<close> in \<open>entries\<close>, \<open>[item1.value, item2.value]\<close> in \<open>zip\<close>).
\<close>

datatype val =
    Undefined
  | Null
  | Bool bool
  | Num int
  | NaN
  | Str string
  | Obj nat
  | Arr "val list"

text \<open>
  Errors as values. \<open>TypeError msg\<close> is \<open>throw new TypeError(msg)\<close> of the source;
  \<open>NotIterable v\<close> is the TypeError that the language raises when an array pattern
  \<open>[a, b]\<close> is matched against a value \<open>v\<close> that has no iterator (its message is
  the engine's own).
\<close>

datatype error = TypeError string | NotIterable val

text \<open>\<open>IteratorResult<T>\<close>: the outcome of one call of \<open>next()\<close>.\<close>

record IteratorResult =
  "done" :: bool
  "value" :: val

section \<open>Semantic helpers\<close>

text \<open>
  \<open>x === y\<close>. \<open>NaN\<close> is not identical to itself. Objects are identical when they
  are the same reference. An \<open>Arr\<close> is a fresh allocation of the library, so it is
  identical to no value that is already in somebody's hands.
\<close>

fun strict_equal :: "val \<Rightarrow> val \<Rightarrow> bool" where
  "strict_equal NaN y = False"
| "strict_equal x NaN = False"
| "strict_equal (Arr xs) y = False"
| "strict_equal x (Arr ys) = False"
| "strict_equal x y = (x = y)"

text \<open>\<open>typeof x === 'number'\<close> and \<open>isNaN(x)\<close> (the latter is only called on numbers).\<close>

fun is_number :: "val \<Rightarrow> bool" where
  "is_number (Num n) = True"
| "is_number NaN = True"
| "is_number v = False"

fun isNaN :: "val \<Rightarrow> bool" where
  "isNaN NaN = True"
| "isNaN v = False"

text \<open>
  \<^verbatim>\<open>const sameValueZero = (x, y) =>
    x === y || (typeof x === 'number' && typeof y === 'number' && isNaN(x) && isNaN(y));\<close>
\<close>

definition sameValueZero :: "val \<Rightarrow> val \<Rightarrow> bool" where
  "sameValueZero x y \<longleftrightarrow>
     strict_equal x y \<or> (is_number x \<and> is_number y \<and> isNaN x \<and> isNaN y)"

text \<open>
  The array pattern \<open>[a, b]\<close> of a destructuring \<open>const [a, b] = v\<close>. It asks \<open>v\<close> for its
  iterator: an array or a string has one (a missing position reads as \<open>undefined\<close>),
  \<open>undefined\<close>, \<open>null\<close>, booleans and numbers have none and the language raises a
  TypeError. An object of the caller is taken to have none either; that branch, like the
  string's, is never reached, because the pattern is only ever matched against what
  \<open>entries\<close> yields.
\<close>

definition nth_or_undefined :: "val list \<Rightarrow> nat \<Rightarrow> val" where
  "nth_or_undefined xs i = (if i < length xs then xs ! i else Undefined)"

fun array_pattern :: "val \<Rightarrow> error + (val \<times> val)" where
  "array_pattern (Arr xs) = Inr (nth_or_undefined xs 0, nth_or_undefined xs 1)"
| "array_pattern (Str s) =
     Inr (nth_or_undefined (map (\<lambda>c. Str [c]) s) 0, nth_or_undefined (map (\<lambda>c. Str [c]) s) 1)"
| "array_pattern v = Inl (NotIterable v)"

section \<open>Iterators\<close>

text \<open>
  Every lazy operation of the source returns \<open>new Seq({[Symbol.iterator]: () => ...})\<close>: an
  iterator object whose \<open>next\<close> closes over some mutable variables. Each such closure is a
  constructor here, holding the variables it closes over.

  \<^item> \<open>ArrayIterator xs\<close>: the language's iterator of an array, \<open>xs\<close> being the elements
    not yet produced (\<open>new Seq(values)\<close>, \<open>Array(count).keys()\<close>).
  \<^item> \<open>External f k\<close>: an iterator supplied by the caller, one that the library knows
    nothing about: its \<open>k\<close>-th call of \<open>next()\<close> answers \<open>f k\<close>.
  \<^item> \<open>MapIterator src index callback\<close>: the closure of \<open>Seq.map\<close>.
  \<^item> \<open>FilterIterator src index callback\<close>: the closure of \<open>Seq.filter\<close>.
  \<^item> \<open>ConcatIterator items itemIndex iterator\<close>: the closure of \<open>Seq.concat\<close>
    (\<open>nextItem\<close> is \<open>items[itemIndex]\<close> throughout).
  \<^item> \<open>InfiniteIterator index\<close>: the closure of \<open>Seq.initInfinite\<close>.
  \<^item> \<open>ZipIterator iterator1 iterator2\<close>: the closure of \<open>Seq.zip\<close>.

  Class \<open>Seq\<close> has the single field \<open>iterator\<close>, and \<open>Seq.next()\<close> is
  \<open>this.iterator.next()\<close>: a \<open>Seq\<close> is modelled by that field. A sequence derived from
  another one takes over its iterator (each iterator has one owner), so the iterators form
  a tree. Callbacks are pure functions of the element and the index; their third argument
  (the sequence) and the optional \<open>thisArg\<close> are left out.

  Names follow the source. Where a name of the source is a keyword or a constant of the
  logic, it carries a prefix: \<open>next\<close> is \<open>seq_next\<close>, and \<open>of\<close>, \<open>from\<close>, \<open>empty\<close>,
  \<open>map\<close>, \<open>filter\<close>, \<open>concat\<close>, \<open>zip\<close> and \<open>includes\<close> are \<open>Seq_of\<close>, \<open>Seq_from\<close>
  and so on.
\<close>

datatype iterator =
    ArrayIterator "val list"
  | External "nat \<Rightarrow> IteratorResult" nat
  | MapIterator iterator nat "val \<Rightarrow> val \<Rightarrow> val"
  | FilterIterator iterator nat "val \<Rightarrow> val \<Rightarrow> bool"
  | ConcatIterator "item list" nat iterator
  | InfiniteIterator nat
  | ZipIterator iterator iterator
and item = ItemSeq iterator | ItemValue val

type_synonym seq = iterator

text \<open>An \<open>Iterable<T>\<close> argument: an array, or anything that hands out an iterator.\<close>

datatype iterable = Array "val list" | Iterable iterator

text \<open>\<open>iterable[Symbol.iterator]()\<close>; a \<open>Seq\<close> returns itself.\<close>

fun get_iterator :: "iterable \<Rightarrow> iterator" where
  "get_iterator (Array xs) = ArrayIterator xs"
| "get_iterator (Iterable it) = it"

text \<open>\<open>constructor(iterable) { this.iterator = iterable[Symbol.iterator](); }\<close>\<close>

definition new_Seq :: "iterable \<Rightarrow> seq" where
  "new_Seq iterable = get_iterator iterable"

text \<open>\<open>static of(...values) { return new Seq(values); }\<close>\<close>

definition Seq_of :: "val list \<Rightarrow> seq" where
  "Seq_of values = new_Seq (Array values)"

text \<open>\<open>static from(iterable) { return new Seq(iterable); }\<close>\<close>

definition Seq_from :: "iterable \<Rightarrow> seq" where
  "Seq_from iterable = new_Seq iterable"

text \<open>\<open>static readonly empty = new Seq([]);\<close>\<close>

definition Seq_empty :: seq where
  "Seq_empty = new_Seq (Array [])"

text \<open>\<open>nextItem instanceof Seq ? nextItem : Seq.of(nextItem)\<close> in \<open>Seq.concat\<close>.\<close>

fun item_iterator :: "item \<Rightarrow> iterator" where
  "item_iterator (ItemSeq s) = s"
| "item_iterator (ItemValue v) = Seq_of [v]"

text \<open>
  \<open>next()\<close>. It returns the result together with the iterator's new state. A call that
  never returns (the \<open>while\<close> loop of \<open>filter\<close> over a source that never ends and never
  satisfies the predicate) has the value \<open>None\<close>.

  The loop of \<open>filter\<close>,
  \<^verbatim>\<open>while (!result.done && !boundCallback(result.value, index++, this))
    result = this.iterator.next();\<close>
  is the recursive call in the \<open>FilterIterator\<close> case: \<open>index++\<close> is evaluated whenever
  the callback is called, whatever it answers. The recursive call in the
  \<open>ConcatIterator\<close> case is \<open>return next()\<close> of the source.
\<close>

partial_function (option) seq_next :: "iterator \<Rightarrow> (IteratorResult \<times> iterator) option" where
  "seq_next it =
    (case it of
      ArrayIterator xs \<Rightarrow>
        (case xs of
          [] \<Rightarrow> Some (\<lparr>done = True, value = Undefined\<rparr>, ArrayIterator [])
        | x # xs' \<Rightarrow> Some (\<lparr>done = False, value = x\<rparr>, ArrayIterator xs'))
    | External f k \<Rightarrow> Some (f k, External f (Suc k))
    | MapIterator src index callback \<Rightarrow>
        Option.bind (seq_next src) (\<lambda>(r, src').
          if value r \<noteq> Undefined
          then Some (\<lparr>done = done r, value = callback (value r) (Num (int index))\<rparr>,
                     MapIterator src' (Suc index) callback)
          else Some (\<lparr>done = done r, value = Bool False\<rparr>,
                     MapIterator src' index callback))
    | FilterIterator src index callback \<Rightarrow>
        Option.bind (seq_next src) (\<lambda>(result, src').
          if \<not> done result
          then (if \<not> callback (value result) (Num (int index))
                then seq_next (FilterIterator src' (Suc index) callback)
                else Some (result, FilterIterator src' (Suc index) callback))
          else Some (result, FilterIterator src' index callback))
    | ConcatIterator items itemIndex iterator \<Rightarrow>
        Option.bind (seq_next iterator) (\<lambda>(result, iterator').
          if \<not> done result
          then Some (result, ConcatIterator items itemIndex iterator')
          else if Suc itemIndex < length items
          then seq_next (ConcatIterator items (Suc itemIndex)
                           (item_iterator (items ! Suc itemIndex)))
          else Some (\<lparr>done = True, value = Undefined\<rparr>,
                     ConcatIterator items (Suc itemIndex) iterator'))
    | InfiniteIterator index \<Rightarrow>
        Some (\<lparr>done = False, value = Num (int index)\<rparr>, InfiniteIterator (Suc index))
    | ZipIterator iterator1 iterator2 \<Rightarrow>
        Option.bind (seq_next iterator1) (\<lambda>(item1, iterator1').
        Option.bind (seq_next iterator2) (\<lambda>(item2, iterator2').
          Some (if done item1 \<or> done item2
                then \<lparr>done = True, value = Undefined\<rparr>
                else \<lparr>done = False, value = Arr [value item1, value item2]\<rparr>,
                ZipIterator iterator1' iterator2'))))"

section \<open>Lazy operations\<close>

text \<open>\<open>map(callback)\<close>: \<open>let index = 0\<close> and the closure over \<open>this.iterator\<close>.\<close>

definition Seq_map :: "(val \<Rightarrow> val \<Rightarrow> val) \<Rightarrow> seq \<Rightarrow> seq" where
  "Seq_map callback this = MapIterator this 0 callback"

text \<open>
  \<open>entries() { return this.map((item, index) => [index, item]); }\<close>, with the arrow
  function under the name \<open>entry\<close>.
\<close>

definition entry :: "val \<Rightarrow> val \<Rightarrow> val" where
  "entry item index = Arr [index, item]"

definition entries :: "seq \<Rightarrow> seq" where
  "entries this = Seq_map entry this"

text \<open>\<open>filter(callback)\<close>.\<close>

definition Seq_filter :: "(val \<Rightarrow> val \<Rightarrow> bool) \<Rightarrow> seq \<Rightarrow> seq" where
  "Seq_filter callback this = FilterIterator this 0 callback"

text \<open>
  \<open>static concat(...items)\<close>: \<open>Seq.empty\<close> for no item, else the closure with
  \<open>itemIndex = 0\<close> and the first item's iterator.
\<close>

definition Seq_concat :: "item list \<Rightarrow> seq" where
  "Seq_concat items =
     (if length items < 1 then Seq_empty
      else ConcatIterator items 0 (item_iterator (items ! 0)))"

text \<open>
  \<open>static init(count, initializer?)\<close>: \<open>Seq.from(Array(count).keys())\<close>, mapped when an
  initializer is given.
\<close>

definition init :: "nat \<Rightarrow> (val \<Rightarrow> val \<Rightarrow> val) option \<Rightarrow> seq" where
  "init count initializer =
     (let seq = Seq_from (Iterable (ArrayIterator (map (\<lambda>i. Num (int i)) [0..<count])))
      in case initializer of Some f \<Rightarrow> Seq_map f seq | None \<Rightarrow> seq)"

text \<open>\<open>static initInfinite(initializer?)\<close>.\<close>

definition initInfinite :: "(val \<Rightarrow> val \<Rightarrow> val) option \<Rightarrow> seq" where
  "initInfinite initializer =
     (let seq = new_Seq (Iterable (InfiniteIterator 0))
      in case initializer of Some f \<Rightarrow> Seq_map f seq | None \<Rightarrow> seq)"


section \<open>Consumers\<close>

text \<open>
  Draining: the spread \<open>[...this]\<close> (as in \<open>join\<close>, \<open>sort\<close>, \<open>reverse\<close>) calls \<open>next()\<close>
  until \<open>done\<close> and collects the values. It returns the array and the iterator's last
  state; \<open>None\<close> when it never ends.
\<close>

partial_function (option) spread :: "iterator \<Rightarrow> (val list \<times> iterator) option" where
  "spread it =
    Option.bind (seq_next it) (\<lambda>(r, it').
      if done r then Some ([], it')
      else Option.bind (spread it') (\<lambda>(xs, it''). Some (value r # xs, it'')))"

text \<open>
  \<^verbatim>\<open>findIndex(callback) {
    for (const [index, item] of this.entries())
      if (boundCallback(item, index, this)) return index;
    return -1;
  }\<close>
  A \<open>for ... of\<close> loop calls \<open>next()\<close>, leaves when \<open>done\<close>, and only then matches the
  pattern against the value. The result comes with the last state of the entries
  iterator, which encloses \<open>this.iterator\<close>.
\<close>

partial_function (option) findIndex_loop ::
  "(val \<Rightarrow> val \<Rightarrow> bool) \<Rightarrow> iterator \<Rightarrow> ((error + val) \<times> iterator) option" where
  "findIndex_loop callback it =
    Option.bind (seq_next it) (\<lambda>(r, it').
      if done r then Some (Inr (Num (- 1)), it')
      else (case array_pattern (value r) of
              Inl e \<Rightarrow> Some (Inl e, it')
            | Inr (index, item) \<Rightarrow>
                if callback item index then Some (Inr index, it')
                else findIndex_loop callback it'))"

definition findIndex :: "(val \<Rightarrow> val \<Rightarrow> bool) \<Rightarrow> seq \<Rightarrow> ((error + val) \<times> iterator) option" where
  "findIndex callback this = findIndex_loop callback (entries this)"

text \<open>
  \<open>index >= fromIndex\<close>, on the index that the pattern bound and a bound that is an
  integral number.
\<close>

fun ge_number :: "val \<Rightarrow> int \<Rightarrow> bool" where
  "ge_number (Num i) n = (n \<le> i)"
| "ge_number v n = False"

text \<open>
  \<^verbatim>\<open>includes(searchElement, fromIndex?) {
    for (const [index, item] of this.entries())
      if ((fromIndex === undefined || index >= fromIndex) && sameValueZero(item, searchElement))
        return true;
    return false;
  }\<close>
\<close>

partial_function (option) includes_loop ::
  "val \<Rightarrow> int option \<Rightarrow> iterator \<Rightarrow> ((error + bool) \<times> iterator) option" where
  "includes_loop searchElement fromIndex it =
    Option.bind (seq_next it) (\<lambda>(r, it').
      if done r then Some (Inr False, it')
      else (case array_pattern (value r) of
              Inl e \<Rightarrow> Some (Inl e, it')
            | Inr (index, item) \<Rightarrow>
                if (case fromIndex of None \<Rightarrow> True | Some n \<Rightarrow> ge_number index n)
                   \<and> sameValueZero item searchElement
                then Some (Inr True, it')
                else includes_loop searchElement fromIndex it'))"

definition Seq_includes :: "val \<Rightarrow> int option \<Rightarrow> seq \<Rightarrow> ((error + bool) \<times> iterator) option" where
  "Seq_includes searchElement fromIndex this = includes_loop searchElement fromIndex (entries this)"

text \<open>
  \<open>reduce(callbackfn, initialValue?)\<close>. The optional argument is \<open>None\<close> when the caller
  leaves it out and \<open>Some v\<close> when the caller passes \<open>v\<close>; a parameter that was left out
  reads as \<open>undefined\<close>. Next to its result, \<open>reduce\<close> returns the calls of
  \<open>callbackfn\<close> it made, in order, each as (previousValue, currentValue, currentIndex),
  and the last state of the entries iterator.

  \<^verbatim>\<open>let accumulator;
  const iterator = this.entries();
  if (initialValue === undefined) {
    let {done, value: [_, acc]} = iterator.next();
    if (done) throw new TypeError('Reduce of empty Seq with no initial value');
    accumulator = acc;
  } else accumulator = initialValue;
  for (const [index, item] of iterator)
    accumulator = callbackfn(accumulator, item, index, this);
  return accumulator;\<close>
  The pattern \<open>{done, value: [_, acc]}\<close> is matched as a whole, so the array pattern meets
  the value before \<open>done\<close> is tested.
\<close>

type_synonym call = "val \<times> val \<times> val"

partial_function (option) reduce_loop ::
  "(val \<Rightarrow> val \<Rightarrow> val \<Rightarrow> val) \<Rightarrow> val \<Rightarrow> call list \<Rightarrow> iterator
    \<Rightarrow> ((error + val) \<times> call list \<times> iterator) option" where
  "reduce_loop callbackfn accumulator calls it =
    Option.bind (seq_next it) (\<lambda>(r, it').
      if done r then Some (Inr accumulator, calls, it')
      else (case array_pattern (value r) of
              Inl e \<Rightarrow> Some (Inl e, calls, it')
            | Inr (index, item) \<Rightarrow>
                reduce_loop callbackfn (callbackfn accumulator item index)
                  (calls @ [(accumulator, item, index)]) it'))"

definition parameter :: "val option \<Rightarrow> val" where
  "parameter arg = (case arg of None \<Rightarrow> Undefined | Some v \<Rightarrow> v)"

definition reduce ::
  "(val \<Rightarrow> val \<Rightarrow> val \<Rightarrow> val) \<Rightarrow> val option \<Rightarrow> seq
    \<Rightarrow> ((error + val) \<times> call list \<times> iterator) option" where
  "reduce callbackfn initialValue this =
    (let iterator = entries this in
     if parameter initialValue = Undefined
     then Option.bind (seq_next iterator) (\<lambda>(r, iterator').
            case array_pattern (value r) of
              Inl e \<Rightarrow> Some (Inl e, [], iterator')
            | Inr (u, acc) \<Rightarrow>
                if done r
                then Some (Inl (TypeError ''Reduce of empty Seq with no initial value''),
                           [], iterator')
                else reduce_loop callbackfn acc [] iterator')
     else reduce_loop callbackfn (parameter initialValue) [] iterator)"

text \<open>The recursion equations are the code equations of the five loops.\<close>

declare seq_next.simps [code]
declare spread.simps [code]
declare findIndex_loop.simps [code]
declare includes_loop.simps [code]
declare reduce_loop.simps [code]

section \<open>Notions used to state the properties\<close>

text \<open>
  A left fold that hands the position to the function, as \<open>Array.prototype.reduce\<close> does:
  its value, and the calls of the function it makes, from position \<open>n\<close> on.
\<close>

fun fold_value :: "(val \<Rightarrow> val \<Rightarrow> val \<Rightarrow> val) \<Rightarrow> val \<Rightarrow> nat \<Rightarrow> val list \<Rightarrow> val" where
  "fold_value f acc n [] = acc"
| "fold_value f acc n (x # xs) = fold_value f (f acc x (Num (int n))) (Suc n) xs"

fun fold_calls :: "(val \<Rightarrow> val \<Rightarrow> val \<Rightarrow> val) \<Rightarrow> val \<Rightarrow> nat \<Rightarrow> val list \<Rightarrow> call list" where
  "fold_calls f acc n [] = []"
| "fold_calls f acc n (x # xs) =
     (acc, x, Num (int n)) # fold_calls f (f acc x (Num (int n))) (Suc n) xs"

text \<open>
  What the closure of \<open>map\<close> yields for the elements \<open>xs\<close> when its \<open>index\<close> is \<open>n\<close>:
  \<open>false\<close> for an element that is \<open>undefined\<close>, with \<open>index\<close> left as it is.
\<close>

fun mapped :: "(val \<Rightarrow> val \<Rightarrow> val) \<Rightarrow> nat \<Rightarrow> val list \<Rightarrow> val list" where
  "mapped f n [] = []"
| "mapped f n (x # xs) =
     (if x \<noteq> Undefined then f x (Num (int n)) # mapped f (Suc n) xs
      else Bool False # mapped f n xs)"

text \<open>Position \<open>i\<close> is at or above the bound; no bound admits every position.\<close>

fun at_or_above :: "int option \<Rightarrow> nat \<Rightarrow> bool" where
  "at_or_above None i = True"
| "at_or_above (Some n) i = (n \<le> int i)"


text \<open>The iterator's state after \<open>n\<close> calls of \<open>next()\<close>, when all of them return.\<close>

fun pulls :: "nat \<Rightarrow> iterator \<Rightarrow> iterator option" where
  "pulls 0 it = Some it"
| "pulls (Suc n) it = Option.bind (seq_next it) (\<lambda>(r, it'). pulls n it')"


text \<open>Every call of \<open>next()\<close> on the iterator returns, now and after any number of calls.\<close>

definition always_returns :: "iterator \<Rightarrow> bool" where
  "always_returns it \<longleftrightarrow> (\<forall>n. pulls (Suc n) it \<noteq> None)"



text \<open>Two callbacks for the examples: \<open>v => v === 0\<close> and \<open>(v, i) => v === 2\<close>.\<close>

definition is_zero :: "val \<Rightarrow> val \<Rightarrow> bool" where
  "is_zero v index \<longleftrightarrow> v = Num 0"

definition is_two :: "val \<Rightarrow> val \<Rightarrow> bool" where
  "is_two v index \<longleftrightarrow> v = Num 2"

section \<open>The equations of \<open>next()\<close>, one per iterator\<close>

lemma next_ArrayIterator_Nil [simp]:
  "seq_next (ArrayIterator []) = Some (\<lparr>done = True, value = Undefined\<rparr>, ArrayIterator [])"
  by (subst seq_next.simps) simp

lemma next_ArrayIterator_Cons [simp]:
  "seq_next (ArrayIterator (x # xs)) = Some (\<lparr>done = False, value = x\<rparr>, ArrayIterator xs)"
  by (subst seq_next.simps) simp

lemma next_External [simp]:
  "seq_next (External f k) = Some (f k, External f (Suc k))"
  by (subst seq_next.simps) simp

lemma next_InfiniteIterator [simp]:
  "seq_next (InfiniteIterator index) =
     Some (\<lparr>done = False, value = Num (int index)\<rparr>, InfiniteIterator (Suc index))"
  by (subst seq_next.simps) simp

lemma next_MapIterator:
  "seq_next (MapIterator src index callback) =
     Option.bind (seq_next src) (\<lambda>(r, src').
       if value r \<noteq> Undefined
       then Some (\<lparr>done = done r, value = callback (value r) (Num (int index))\<rparr>,
                  MapIterator src' (Suc index) callback)
       else Some (\<lparr>done = done r, value = Bool False\<rparr>, MapIterator src' index callback))"
  by (subst seq_next.simps) simp

lemma next_FilterIterator:
  "seq_next (FilterIterator src index callback) =
     Option.bind (seq_next src) (\<lambda>(result, src').
       if \<not> done result
       then (if \<not> callback (value result) (Num (int index))
             then seq_next (FilterIterator src' (Suc index) callback)
             else Some (result, FilterIterator src' (Suc index) callback))
       else Some (result, FilterIterator src' index callback))"
  by (subst seq_next.simps) simp

lemma next_ConcatIterator:
  "seq_next (ConcatIterator items itemIndex iterator) =
     Option.bind (seq_next iterator) (\<lambda>(result, iterator').
       if \<not> done result
       then Some (result, ConcatIterator items itemIndex iterator')
       else if Suc itemIndex < length items
       then seq_next (ConcatIterator items (Suc itemIndex)
                        (item_iterator (items ! Suc itemIndex)))
       else Some (\<lparr>done = True, value = Undefined\<rparr>,
                  ConcatIterator items (Suc itemIndex) iterator'))"
  by (subst seq_next.simps) simp


section \<open>Draining\<close>

lemma spread_done: "seq_next it = Some (r, it') \<Longrightarrow> done r \<Longrightarrow> spread it = Some ([], it')"
  by (subst spread.simps) simp

lemma spread_more:
  "seq_next it = Some (r, it') \<Longrightarrow> \<not> done r \<Longrightarrow>
   spread it = Option.bind (spread it') (\<lambda>(xs, it''). Some (value r # xs, it''))"
  by (subst spread.simps) simp

lemma spread_cong: "seq_next a = seq_next b \<Longrightarrow> spread a = spread b"
  by (subst spread.simps, subst (2) spread.simps) simp

lemma spread_NilE:
  assumes "spread it = Some ([], it')"
  obtains r where "seq_next it = Some (r, it')" "done r"
  using assms
  by (subst (asm) spread.simps) (auto split: bind_splits if_splits)

lemma spread_ConsE:
  assumes "spread it = Some (x # xs, it')"
  obtains r it1 where "seq_next it = Some (r, it1)" "\<not> done r" "value r = x"
    "spread it1 = Some (xs, it')"
  using assms
  by (subst (asm) spread.simps) (auto split: bind_splits if_splits)

lemma spread_ArrayIterator: "spread (ArrayIterator xs) = Some (xs, ArrayIterator [])"
  by (induction xs) (simp_all add: spread_done spread_more)

lemma spread_Seq_of: "spread (Seq_of xs) = Some (xs, ArrayIterator [])"
  by (simp add: Seq_of_def new_Seq_def spread_ArrayIterator)

section \<open>filter\<close>

lemma spread_FilterIterator:
  "spread source = Some (xs, source') \<Longrightarrow>
   spread (FilterIterator source n p) =
     Some (map snd (filter (\<lambda>(i, x). p x (Num (int i))) (enumerate n xs)),
           FilterIterator source' (n + length xs) p)"
proof (induction xs arbitrary: source n)
  case Nil
  then obtain r where r: "seq_next source = Some (r, source')" "done r"
    by (rule spread_NilE)
  then have "seq_next (FilterIterator source n p) = Some (r, FilterIterator source' n p)"
    by (simp add: next_FilterIterator)
  with r show ?case by (simp add: spread_done)
next
  case (Cons x xs)
  then obtain r s1 where r: "seq_next source = Some (r, s1)" "\<not> done r" "value r = x"
    "spread s1 = Some (xs, source')"
    by (auto elim: spread_ConsE)
  note IH = Cons.IH [OF r(4), of "Suc n"]
  show ?case
  proof (cases "p x (Num (int n))")
    case True
    with r have "seq_next (FilterIterator source n p) = Some (r, FilterIterator s1 (Suc n) p)"
      by (simp add: next_FilterIterator)
    with r True IH show ?thesis by (simp add: spread_more)
  next
    case False
    with r have "seq_next (FilterIterator source n p) = seq_next (FilterIterator s1 (Suc n) p)"
      by (simp add: next_FilterIterator)
    then have "spread (FilterIterator source n p) = spread (FilterIterator s1 (Suc n) p)"
      by (rule spread_cong)
    with False IH show ?thesis by simp
  qed
qed

lemma spread_filter_of_array:
  "spread (Seq_filter p (Seq_of xs)) =
     Some (map snd (filter (\<lambda>(i, x). p x (Num (int i))) (enumerate 0 xs)),
           FilterIterator (ArrayIterator []) (length xs) p)"
  using spread_FilterIterator [OF spread_Seq_of, of xs 0 p] by (simp add: Seq_filter_def)

text \<open>
  Claim C4. Whenever the source is finite, that is, draining it ends and gives the elements
  \<open>xs\<close>, draining \<open>filter(p)\<close> of it ends as well and gives exactly the elements of
  \<open>xs\<close> that satisfy \<open>p\<close>, in their order in \<open>xs\<close>. The index handed to \<open>p\<close> with an
  element is the element's position in \<open>xs\<close>, so it counts the discarded elements too; at
  the end the closure's \<open>index\<close> is the number of all elements examined.
\<close>

theorem filter_drains_to_satisfying_subsequence:
  assumes "spread source = Some (xs, source')"
  shows "spread (Seq_filter p source) =
           Some (map snd (filter (\<lambda>(i, x). p x (Num (int i))) (enumerate 0 xs)),
                 FilterIterator source' (length xs) p)"
  using spread_FilterIterator [OF assms, of 0 p] by (simp add: Seq_filter_def)

theorem filter_drains_to_satisfying_subsequence_witness:
  "spread (Seq_of [Num 10, Num 20, Num 30]) = Some ([Num 10, Num 20, Num 30], ArrayIterator [])
   \<and> spread (Seq_filter (\<lambda>v i. i \<noteq> Num 0 \<and> v \<noteq> Num 30) (Seq_of [Num 10, Num 20, Num 30])) =
       Some ([Num 20], FilterIterator (ArrayIterator []) 3 (\<lambda>v i. i \<noteq> Num 0 \<and> v \<noteq> Num 30))"
proof -
  have h: "spread (Seq_of [Num 10, Num 20, Num 30]) =
             Some ([Num 10, Num 20, Num 30], ArrayIterator [])"
    by (rule spread_Seq_of)
  show ?thesis
    using h filter_drains_to_satisfying_subsequence
      [OF h, of "\<lambda>v i. i \<noteq> Num 0 \<and> v \<noteq> Num 30"]
    by simp
qed

section \<open>map\<close>

text \<open>What draining \<open>map(f)\<close> of a finite source gives, whatever its elements.\<close>

lemma spread_MapIterator:
  "spread source = Some (xs, source') \<Longrightarrow>
   \<exists>it. spread (MapIterator source n f) = Some (mapped f n xs, it)"
proof (induction xs arbitrary: source n)
  case Nil
  then obtain r where r: "seq_next source = Some (r, source')" "done r"
    by (auto elim: spread_NilE)
  then obtain r' it' where "seq_next (MapIterator source n f) = Some (r', it')" "done r'"
    by (cases "value r = Undefined") (simp_all add: next_MapIterator)
  then show ?case by (simp add: spread_done)
next
  case (Cons x xs)
  then obtain r s1 where r: "seq_next source = Some (r, s1)" "\<not> done r" "value r = x"
    "spread s1 = Some (xs, source')"
    by (auto elim: spread_ConsE)
  show ?case
  proof (cases "x = Undefined")
    case True
    from Cons.IH [OF r(4), of n] obtain it where
      "spread (MapIterator s1 n f) = Some (mapped f n xs, it)" ..
    moreover from r True have "seq_next (MapIterator source n f) =
        Some (\<lparr>done = False, value = Bool False\<rparr>, MapIterator s1 n f)"
      by (simp add: next_MapIterator)
    ultimately show ?thesis using True by (simp add: spread_more)
  next
    case False
    from Cons.IH [OF r(4), of "Suc n"] obtain it where
      "spread (MapIterator s1 (Suc n) f) = Some (mapped f (Suc n) xs, it)" ..
    moreover from r False have "seq_next (MapIterator source n f) =
        Some (\<lparr>done = False, value = f x (Num (int n))\<rparr>, MapIterator s1 (Suc n) f)"
      by (simp add: next_MapIterator)
    ultimately show ?thesis using False by (simp add: spread_more)
  qed
qed

text \<open>
  On a finite source without \<open>undefined\<close> elements, draining \<open>map(f)\<close> gives \<open>f\<close> of
  each element and its position, in order.
\<close>

lemma spread_MapIterator_defined:
  "spread source = Some (xs, source') \<Longrightarrow> Undefined \<notin> set xs \<Longrightarrow>
   \<exists>it. spread (MapIterator source n f) =
     Some (map (\<lambda>(i, x). f x (Num (int i))) (enumerate n xs), it)"
proof (induction xs arbitrary: source n)
  case Nil
  then obtain r where r: "seq_next source = Some (r, source')" "done r"
    by (auto elim: spread_NilE)
  then obtain r' it' where "seq_next (MapIterator source n f) = Some (r', it')" "done r'"
    by (cases "value r = Undefined") (simp_all add: next_MapIterator)
  then show ?case by (simp add: spread_done)
next
  case (Cons x xs)
  then obtain r s1 where r: "seq_next source = Some (r, s1)" "\<not> done r" "value r = x"
    "spread s1 = Some (xs, source')"
    by (auto elim: spread_ConsE)
  from Cons.prems have x: "x \<noteq> Undefined" and xs: "Undefined \<notin> set xs" by auto
  from Cons.IH [OF r(4) xs, of "Suc n"] obtain it where
    it: "spread (MapIterator s1 (Suc n) f) =
           Some (map (\<lambda>(i, x). f x (Num (int i))) (enumerate (Suc n) xs), it)" ..
  from r x have "seq_next (MapIterator source n f) =
      Some (\<lparr>done = False, value = f x (Num (int n))\<rparr>, MapIterator s1 (Suc n) f)"
    by (simp add: next_MapIterator)
  with it show ?case by (simp add: spread_more)
qed

lemma map_drains_defined_elements:
  assumes "spread source = Some (xs, source')" "Undefined \<notin> set xs"
  shows "\<exists>it. spread (Seq_map f source) =
     Some (map (\<lambda>(i, x). f x (Num (int i))) (enumerate 0 xs), it)"
  using spread_MapIterator_defined [OF assms, of 0 f] by (simp add: Seq_map_def)

text \<open>
  Claim C1. The claim includes the elements that are \<open>undefined\<close>; the code tests
  \<open>value !== undefined\<close> where it means \<open>!done\<close>. Draining
  \<open>Seq.of(undefined, 7).map(f)\<close> gives \<open>[false, f(7, 0)]\<close>: the callback is not applied
  to the first element, \<open>false\<close> stands in its place, and the second element is handed
  to \<open>f\<close> with index 0. The claim asks for \<open>[f(undefined, 0), f(7, 1)]\<close>.
\<close>

theorem map_passes_over_undefined_element:
  "spread (Seq_map f (Seq_of [Undefined, Num 7])) =
     Some ([Bool False, f (Num 7) (Num 0)], MapIterator (ArrayIterator []) 1 f)"
  by (simp add: Seq_map_def Seq_of_def new_Seq_def next_MapIterator spread_more spread_done)

theorem map_passes_over_undefined_element_witness:
  "spread (Seq_map entry (Seq_of [Undefined, Num 7])) =
     Some ([Bool False, Arr [Num 0, Num 7]], MapIterator (ArrayIterator []) 1 entry)"
  using map_passes_over_undefined_element [of entry] by (simp add: entry_def)

section \<open>init\<close>

text \<open>
  \<open>init(count)\<close> drains to 0, ..., \<open>count - 1\<close>, and \<open>init(count, f)\<close> to \<open>f\<close> of each
  of them, the number being both the element and its index.
\<close>

lemma spread_init:
  "spread (init count None) = Some (map (\<lambda>i. Num (int i)) [0..<count], ArrayIterator [])"
  by (simp add: init_def Seq_from_def new_Seq_def spread_ArrayIterator)

lemma mapped_upt:
  "mapped f n (map (\<lambda>i. Num (int i)) [n..<n + k]) =
     map (\<lambda>i. f (Num (int i)) (Num (int i))) [n..<n + k]"
proof (induction k arbitrary: n)
  case 0
  then show ?case by simp
next
  case (Suc k)
  have "[n..<n + Suc k] = n # [Suc n..<Suc n + k]"
    by (simp add: upt_conv_Cons)
  with Suc [of "Suc n"] show ?case by simp
qed

lemma spread_init_initializer:
  "\<exists>it. spread (init count (Some f)) =
     Some (map (\<lambda>i. f (Num (int i)) (Num (int i))) [0..<count], it)"
  using spread_MapIterator [OF spread_ArrayIterator, of "map (\<lambda>i. Num (int i)) [0..<count]" 0 f]
    mapped_upt [of f 0 count]
  by (simp add: init_def Seq_from_def new_Seq_def Seq_map_def)

section \<open>reduce\<close>

lemma nth_or_undefined_simps [simp]:
  "nth_or_undefined (a # xs) 0 = a"
  "nth_or_undefined (a # b # xs) (Suc 0) = b"
  by (simp_all add: nth_or_undefined_def)

lemma array_pattern_entry [simp]: "array_pattern (entry item index) = Inr (index, item)"
  by (simp add: entry_def)

lemma next_entries:
  "seq_next src = Some (r, src') \<Longrightarrow>
   seq_next (MapIterator src n entry) =
     Some (if value r \<noteq> Undefined
           then (\<lparr>done = done r, value = entry (value r) (Num (int n))\<rparr>,
                 MapIterator src' (Suc n) entry)
           else (\<lparr>done = done r, value = Bool False\<rparr>, MapIterator src' n entry))"
  by (simp add: next_MapIterator)

text \<open>
  \<open>entries\<close> yields pairs, and \<open>false\<close> where the source's value is \<open>undefined\<close>; the
  array patterns of the loops meet nothing else.
\<close>

lemma entries_yields:
  assumes "seq_next (MapIterator src n entry) = Some (r, it)"
  shows "value r = Bool False \<or> (\<exists>item index. value r = Arr [index, item])"
  using assms
  by (auto simp: next_MapIterator entry_def split: bind_splits if_splits)

text \<open>
  \<open>reduce\<close> without an initial value on a sequence whose next call of \<open>next()\<close> reports
  \<open>done\<close>. When the exhausted result carries \<open>undefined\<close> (an array's iterator, \<open>filter\<close>,
  \<open>concat\<close>, \<open>zip\<close>), \<open>entries\<close> turns it into \<open>false\<close> and the array pattern fails on
  it; the test of \<open>done\<close> is reached only when the result carries another value (as that
  of a \<open>map\<close> does).
\<close>

lemma reduce_exhausted:
  assumes "seq_next this = Some (r, this')" "done r"
  shows "reduce f None this =
    Some (Inl (if value r = Undefined then NotIterable (Bool False)
               else TypeError ''Reduce of empty Seq with no initial value''),
          [], MapIterator this' (if value r = Undefined then 0 else 1) entry)"
  using assms
  by (simp add: reduce_def parameter_def entries_def Seq_map_def next_entries)

lemma reduce_loop_defined:
  "spread src = Some (xs, src') \<Longrightarrow> Undefined \<notin> set xs \<Longrightarrow>
   \<exists>it. reduce_loop f acc calls (MapIterator src n entry) =
     Some (Inr (fold_value f acc n xs), calls @ fold_calls f acc n xs, it)"
proof (induction xs arbitrary: src n acc calls)
  case Nil
  then obtain r where r: "seq_next src = Some (r, src')" "done r"
    by (auto elim: spread_NilE)
  show ?case
    by (subst reduce_loop.simps) (simp add: next_entries [OF r(1)] r(2))
next
  case (Cons x xs)
  then obtain r s1 where r: "seq_next src = Some (r, s1)" "\<not> done r" "value r = x"
    "spread s1 = Some (xs, src')"
    by (auto elim: spread_ConsE)
  from Cons.prems have x: "x \<noteq> Undefined" and xs: "Undefined \<notin> set xs" by auto
  from Cons.IH [OF r(4) xs, of "f acc x (Num (int n))" "calls @ [(acc, x, Num (int n))]" "Suc n"]
  obtain it where
    it: "reduce_loop f (f acc x (Num (int n))) (calls @ [(acc, x, Num (int n))])
           (MapIterator s1 (Suc n) entry) =
         Some (Inr (fold_value f (f acc x (Num (int n))) (Suc n) xs),
               (calls @ [(acc, x, Num (int n))]) @
               fold_calls f (f acc x (Num (int n))) (Suc n) xs, it)"
    ..
  show ?case
    by (subst reduce_loop.simps) (simp add: next_entries [OF r(1)] r(2,3) x it)
qed

text \<open>
  On a finite sequence without \<open>undefined\<close> elements and with no initial value, the first
  element is the seed, no call is made for it, and the fold goes on from the second
  element at index 1; with one element the result is that element and the callback is
  never called.
\<close>

lemma reduce_unseeded_defined:
  assumes "spread this = Some (x # xs, this')" "Undefined \<notin> set (x # xs)"
  shows "\<exists>it. reduce f None this = Some (Inr (fold_value f x 1 xs), fold_calls f x 1 xs, it)"
proof -
  from assms obtain r s1 where r: "seq_next this = Some (r, s1)" "\<not> done r" "value r = x"
    "spread s1 = Some (xs, this')"
    by (auto elim: spread_ConsE)
  from assms have x: "x \<noteq> Undefined" and xs: "Undefined \<notin> set xs" by auto
  from reduce_loop_defined [OF r(4) xs, of f x "[]" 1] obtain it where
    "reduce_loop f x [] (MapIterator s1 (Suc 0) entry) =
       Some (Inr (fold_value f x 1 xs), fold_calls f x 1 xs, it)"
    by auto
  then show ?thesis
    by (simp add: reduce_def parameter_def entries_def Seq_map_def next_entries [OF r(1)] r(2,3) x)
qed

lemma reduce_single_defined_element:
  assumes "x \<noteq> Undefined"
  shows "\<exists>it. reduce f None (Seq_of [x]) = Some (Inr x, [], it)"
  using reduce_unseeded_defined [of "Seq_of [x]" x "[]" "ArrayIterator []" f] assms
  by (simp add: spread_Seq_of)

lemma reduce_first_call:
  assumes "spread this = Some (x # y # ys, this')" "Undefined \<notin> set (x # y # ys)"
  shows "\<exists>calls it. reduce f None this =
     Some (Inr (fold_value f (f x y (Num 1)) 2 ys), (x, y, Num 1) # calls, it)"
  using reduce_unseeded_defined [OF assms, of f] by (auto simp: numeral_2_eq_2)

lemma reduce_seeded_defined:
  assumes "spread this = Some (xs, this')" "Undefined \<notin> set xs" "seed \<noteq> Undefined"
  shows "\<exists>it. reduce f (Some seed) this =
     Some (Inr (fold_value f seed 0 xs), fold_calls f seed 0 xs, it)"
  using reduce_loop_defined [OF assms(1,2), of f seed "[]" 0] assms(3)
  by (simp add: reduce_def parameter_def entries_def Seq_map_def)

text \<open>Passing \<open>undefined\<close> as the initial value is the same as passing none.\<close>

lemma reduce_explicit_undefined: "reduce f (Some Undefined) this = reduce f None this"
  by (simp add: reduce_def parameter_def)

text \<open>
  Claim C2. \<open>Seq.empty.reduce(f)\<close> fails, but not with the TypeError of the \<open>throw\<close>
  statement: \<open>entries\<close> yields \<open>{done: true, value: false}\<close>, and the pattern
  \<open>{done, value: [_, acc]}\<close> fails on \<open>false\<close> before \<open>if (done)\<close> is reached.
\<close>

theorem reduce_of_empty_fails_in_the_pattern:
  "reduce f None Seq_empty =
     Some (Inl (NotIterable (Bool False)), [], MapIterator (ArrayIterator []) 0 entry)"
  using reduce_exhausted [of Seq_empty "\<lparr>done = True, value = Undefined\<rparr>" "ArrayIterator []" f]
  by (simp add: Seq_empty_def new_Seq_def)

theorem reduce_of_empty_fails_in_the_pattern_witness:
  "reduce (\<lambda>acc x i. x) None Seq_empty =
     Some (Inl (NotIterable (Bool False)), [], MapIterator (ArrayIterator []) 0 entry)
   \<and> NotIterable (Bool False) \<noteq> TypeError ''Reduce of empty Seq with no initial value''"
  using reduce_of_empty_fails_in_the_pattern [of "\<lambda>acc x i. x"] by simp

text \<open>
  Claim C3. \<open>Seq.of(undefined).reduce(f)\<close> produces exactly one element and does not
  return it: \<open>entries\<close>, being a \<open>map\<close>, yields \<open>false\<close> for the \<open>undefined\<close> element,
  and the array pattern fails on it. The callback is not called.
\<close>

theorem reduce_single_undefined_element_fails:
  "spread (Seq_of [Undefined]) = Some ([Undefined], ArrayIterator [])
   \<and> reduce f None (Seq_of [Undefined]) =
       Some (Inl (NotIterable (Bool False)), [], MapIterator (ArrayIterator []) 0 entry)"
  by (simp add: spread_Seq_of)
     (simp add: reduce_def parameter_def entries_def Seq_map_def Seq_of_def new_Seq_def
        next_MapIterator)

theorem reduce_single_undefined_element_fails_witness:
  "reduce (\<lambda>acc x i. acc) None (Seq_of [Undefined]) =
       Some (Inl (NotIterable (Bool False)), [], MapIterator (ArrayIterator []) 0 entry)"
  using reduce_single_undefined_element_fails [of "\<lambda>acc x i. acc"] by simp

text \<open>
  Claim C10. \<open>Seq.of(undefined, 1).reduce(f, undefined)\<close> is a call on a non-empty
  sequence with \<open>undefined\<close> passed as the initial value. It behaves as the call without
  an initial value, but the first element does not become the seed: the call fails on
  it, for the reason given under C1 and C3.
\<close>

theorem reduce_undefined_seed_on_undefined_element_fails:
  "reduce f (Some Undefined) (Seq_of [Undefined, Num 1]) = reduce f None (Seq_of [Undefined, Num 1])
   \<and> reduce f (Some Undefined) (Seq_of [Undefined, Num 1]) =
       Some (Inl (NotIterable (Bool False)), [], MapIterator (ArrayIterator [Num 1]) 0 entry)"
  by (simp add: reduce_def parameter_def entries_def Seq_map_def Seq_of_def new_Seq_def
        next_MapIterator)

theorem reduce_undefined_seed_on_undefined_element_fails_witness:
  "reduce (\<lambda>acc x i. x) (Some Undefined) (Seq_of [Undefined, Num 1]) =
       Some (Inl (NotIterable (Bool False)), [], MapIterator (ArrayIterator [Num 1]) 0 entry)"
  using reduce_undefined_seed_on_undefined_element_fails [of "\<lambda>acc x i. x"] by (rule conjunct2)

section \<open>findIndex on the infinite sequence\<close>

lemma findIndex_loop_InfiniteIterator:
  assumes "p (Num (int k)) (Num (int k))"
    and "\<forall>j. n \<le> j \<and> j < k \<longrightarrow> \<not> p (Num (int j)) (Num (int j))"
    and "n \<le> k"
  shows "findIndex_loop p (MapIterator (InfiniteIterator n) n entry) =
     Some (Inr (Num (int k)), MapIterator (InfiniteIterator (Suc k)) (Suc k) entry)"
  using assms
proof (induction "k - n" arbitrary: n)
  case 0
  then have "n = k" by simp
  with 0 show ?case
    by (subst findIndex_loop.simps) (simp add: next_MapIterator)
next
  case (Suc d)
  then have n: "n < k" "\<not> p (Num (int n)) (Num (int n))" by auto
  have "findIndex_loop p (MapIterator (InfiniteIterator (Suc n)) (Suc n) entry) =
     Some (Inr (Num (int k)), MapIterator (InfiniteIterator (Suc k)) (Suc k) entry)"
    using Suc.hyps(2) Suc.prems n by (intro Suc.hyps(1)) auto
  with n show ?case
    by (subst findIndex_loop.simps) (simp add: next_MapIterator)
qed

text \<open>
  Claim C8. \<open>initInfinite()\<close> yields 0, 1, 2, ... and never reports \<open>done\<close>: in any
  state \<open>n\<close> its \<open>next()\<close> returns \<open>n\<close> and moves on to \<open>n + 1\<close>. When the predicate
  holds at position \<open>k\<close> and at no position before, \<open>findIndex\<close> returns, with the value
  \<open>k\<close>, and leaves the infinite source in state \<open>k + 1\<close>: it has pulled exactly
  \<open>k + 1\<close> elements and no more.
\<close>

theorem findIndex_on_initInfinite_stops_at_first_match:
  assumes "p (Num (int k)) (Num (int k))"
    and "\<forall>j<k. \<not> p (Num (int j)) (Num (int j))"
  shows "initInfinite None = InfiniteIterator 0
   \<and> seq_next (InfiniteIterator n) =
       Some (\<lparr>done = False, value = Num (int n)\<rparr>, InfiniteIterator (Suc n))
   \<and> findIndex p (initInfinite None) =
       Some (Inr (Num (int k)), MapIterator (InfiniteIterator (Suc k)) (Suc k) entry)"
  using findIndex_loop_InfiniteIterator [of p k 0] assms
  by (simp add: findIndex_def initInfinite_def new_Seq_def entries_def Seq_map_def)

theorem findIndex_on_initInfinite_stops_at_first_match_witness:
  "is_two (Num (int 2)) (Num (int 2))
   \<and> \<not> is_two (Num (int 0)) (Num (int 0)) \<and> \<not> is_two (Num (int 1)) (Num (int 1))
   \<and> findIndex is_two (initInfinite None) =
       Some (Inr (Num 2), MapIterator (InfiniteIterator 3) 3 entry)"
proof -
  have holds: "is_two (Num (int 2)) (Num (int 2))"
    by (simp add: is_two_def)
  have before: "\<forall>j<2. \<not> is_two (Num (int j)) (Num (int j))"
    by (simp add: is_two_def)
  from findIndex_on_initInfinite_stops_at_first_match [of is_two 2 0] holds before
  have "findIndex is_two (initInfinite None) =
      Some (Inr (Num (int 2)), MapIterator (InfiniteIterator (Suc 2)) (Suc 2) entry)"
    by blast
  moreover have "Suc 2 = 3" by simp
  ultimately show ?thesis
    by (simp add: is_two_def)
qed

section \<open>includes\<close>

lemma includes_loop_defined:
  "spread src = Some (xs, src') \<Longrightarrow> Undefined \<notin> set xs \<Longrightarrow>
   \<exists>it. includes_loop x fromIndex (MapIterator src n entry) =
     Some (Inr (\<exists>i<length xs. at_or_above fromIndex (n + i) \<and> sameValueZero (xs ! i) x), it)"
proof (induction xs arbitrary: src n)
  case Nil
  then obtain r where r: "seq_next src = Some (r, src')" "done r"
    by (auto elim: spread_NilE)
  show ?case
    by (subst includes_loop.simps) (simp add: next_entries [OF r(1)] r(2))
next
  case (Cons y ys)
  then obtain r s1 where r: "seq_next src = Some (r, s1)" "\<not> done r" "value r = y"
    "spread s1 = Some (ys, src')"
    by (auto elim: spread_ConsE)
  from Cons.prems have y: "y \<noteq> Undefined" and ys: "Undefined \<notin> set ys" by auto
  from Cons.IH [OF r(4) ys, of "Suc n"] obtain it where
    it: "includes_loop x fromIndex (MapIterator s1 (Suc n) entry) =
     Some (Inr (\<exists>i<length ys. at_or_above fromIndex (Suc n + i) \<and> sameValueZero (ys ! i) x), it)"
    ..
  have ge: "(case fromIndex of None \<Rightarrow> True | Some m \<Rightarrow> ge_number (Num (int n)) m) =
      at_or_above fromIndex n"
    by (cases fromIndex) simp_all
  have split:
    "(\<exists>i<length (y # ys). at_or_above fromIndex (n + i) \<and> sameValueZero ((y # ys) ! i) x) \<longleftrightarrow>
     (at_or_above fromIndex n \<and> sameValueZero y x) \<or>
     (\<exists>i<length ys. at_or_above fromIndex (Suc n + i) \<and> sameValueZero (ys ! i) x)"
    by (auto simp: less_Suc_eq_0_disj)
  show ?case
    unfolding split
    by (subst includes_loop.simps) (auto simp add: next_entries [OF r(1)] r(2,3) y it ge)
qed

text \<open>
  On a finite sequence without \<open>undefined\<close> elements, \<open>includes\<close> returns, and its answer
  is whether some element at a position at or above \<open>fromIndex\<close> is the search element
  under \<open>sameValueZero\<close>; \<open>NaN\<close> is found.
\<close>

lemma includes_defined:
  assumes "spread this = Some (xs, this')" "Undefined \<notin> set xs"
  shows "\<exists>it. Seq_includes x fromIndex this =
     Some (Inr (\<exists>i<length xs. at_or_above fromIndex i \<and> sameValueZero (xs ! i) x), it)"
  using includes_loop_defined [OF assms, of x fromIndex 0]
  by (simp add: Seq_includes_def entries_def Seq_map_def)

lemma sameValueZero_iff:
  "sameValueZero x y \<longleftrightarrow> strict_equal x y \<or> (x = NaN \<and> y = NaN)"
  by (cases x; cases y) (simp_all add: sameValueZero_def)

lemma includes_NaN:
  assumes "spread this = Some (xs, this')" "Undefined \<notin> set xs" "NaN \<in> set xs"
  shows "\<exists>it. Seq_includes NaN None this = Some (Inr True, it)"
proof -
  from assms(3) obtain i where "i < length xs" "xs ! i = NaN"
    by (auto simp: in_set_conv_nth)
  then have "\<exists>i<length xs. at_or_above None i \<and> sameValueZero (xs ! i) NaN"
    by (auto simp: sameValueZero_def)
  with includes_defined [OF assms(1,2), of NaN None] show ?thesis by simp
qed

text \<open>
  Claim C9. \<open>Seq.of(undefined).includes(undefined)\<close>: the one element is strictly
  identical to the search element, so the claim asks for \<open>true\<close>. The call fails instead:
  \<open>entries\<close> yields \<open>false\<close> for the \<open>undefined\<close> element and the array pattern of the
  loop fails on it, for the reason given under C1.
\<close>

theorem includes_fails_on_undefined_element:
  "sameValueZero Undefined Undefined
   \<and> Seq_includes Undefined None (Seq_of [Undefined]) =
       Some (Inl (NotIterable (Bool False)), MapIterator (ArrayIterator []) 0 entry)"
  by (simp add: sameValueZero_def, subst Seq_includes_def, subst includes_loop.simps)
     (simp add: entries_def Seq_map_def Seq_of_def new_Seq_def next_MapIterator)

theorem includes_fails_on_undefined_element_witness:
  "Seq_includes Undefined None (Seq_of [Undefined]) \<noteq>
     Some (Inr True, MapIterator (ArrayIterator []) 1 entry)"
  using includes_fails_on_undefined_element by simp

section \<open>zip\<close>





section \<open>concat\<close>

text \<open>The item in turn: its elements, then whatever the later items give.\<close>

lemma spread_ConcatIterator_current:
  assumes rest: "\<And>it1. spread it1 = Some ([], it') \<Longrightarrow>
      \<exists>fin. spread (ConcatIterator items k it1) = Some (zs, fin)"
  shows "spread it = Some (xs, it') \<Longrightarrow>
     \<exists>fin. spread (ConcatIterator items k it) = Some (xs @ zs, fin)"
proof (induction xs arbitrary: it)
  case Nil
  then show ?case using rest by simp
next
  case (Cons x xs)
  then obtain r it1 where r: "seq_next it = Some (r, it1)" "\<not> done r" "value r = x"
    "spread it1 = Some (xs, it')"
    by (auto elim: spread_ConsE)
  from Cons.IH [OF r(4)] obtain fin where
    "spread (ConcatIterator items k it1) = Some (xs @ zs, fin)" ..
  moreover from r have "seq_next (ConcatIterator items k it) =
      Some (r, ConcatIterator items k it1)"
    by (simp add: next_ConcatIterator)
  ultimately show ?case using r by (simp add: spread_more)
qed

lemma spread_ConcatIterator:
  "list_all2 (\<lambda>item ys. \<exists>it'. spread (item_iterator item) = Some (ys, it'))
     (drop (Suc k) items) yss \<Longrightarrow>
   k < length items \<Longrightarrow> spread it = Some (xs, it') \<Longrightarrow>
   \<exists>fin. spread (ConcatIterator items k it) = Some (xs @ concat yss, fin)"
proof (induction yss arbitrary: k it xs it')
  case Nil
  then have last: "\<not> Suc k < length items" by simp
  show ?case
  proof (rule spread_ConcatIterator_current [OF _ Nil.prems(3)])
    fix it1 assume "spread it1 = Some ([], it')"
    then obtain r where r: "seq_next it1 = Some (r, it')" "done r"
      by (auto elim: spread_NilE)
    with last have "seq_next (ConcatIterator items k it1) =
        Some (\<lparr>done = True, value = Undefined\<rparr>, ConcatIterator items (Suc k) it')"
      by (simp add: next_ConcatIterator)
    then show "\<exists>fin. spread (ConcatIterator items k it1) = Some (concat [], fin)"
      by (simp add: spread_done)
  qed
next
  case (Cons ys yss)
  from Cons.prems(1) have more: "Suc k < length items"
    by (cases "Suc k < length items") auto
  then have drop: "drop (Suc k) items = items ! Suc k # drop (Suc (Suc k)) items"
    by (simp add: Cons_nth_drop_Suc)
  with Cons.prems(1) obtain it2 where
    ys: "spread (item_iterator (items ! Suc k)) = Some (ys, it2)"
    and yss: "list_all2 (\<lambda>item ys. \<exists>it'. spread (item_iterator item) = Some (ys, it'))
       (drop (Suc (Suc k)) items) yss"
    by auto
  from Cons.IH [OF yss more ys] obtain fin where
    fin: "spread (ConcatIterator items (Suc k) (item_iterator (items ! Suc k))) =
      Some (ys @ concat yss, fin)" ..
  show ?case
  proof (rule spread_ConcatIterator_current [OF _ Cons.prems(3)])
    fix it1 assume "spread it1 = Some ([], it')"
    then obtain r where r: "seq_next it1 = Some (r, it')" "done r"
      by (auto elim: spread_NilE)
    with more have "seq_next (ConcatIterator items k it1) =
        seq_next (ConcatIterator items (Suc k) (item_iterator (items ! Suc k)))"
      by (simp add: next_ConcatIterator)
    then have "spread (ConcatIterator items k it1) =
        spread (ConcatIterator items (Suc k) (item_iterator (items ! Suc k)))"
      by (rule spread_cong)
    with fin show "\<exists>fin. spread (ConcatIterator items k it1) = Some (concat (ys # yss), fin)"
      by simp
  qed
qed

lemma spread_Seq_concat:
  assumes "list_all2 (\<lambda>item ys. \<exists>it'. spread (item_iterator item) = Some (ys, it')) items yss"
  shows "\<exists>fin. spread (Seq_concat items) = Some (concat yss, fin)"
proof (cases items)
  case Nil
  with assms show ?thesis
    by (simp add: Seq_concat_def Seq_empty_def new_Seq_def spread_ArrayIterator)
next
  case (Cons item items')
  with assms obtain ys yss' it' where yss: "yss = ys # yss'"
    and ys: "spread (item_iterator item) = Some (ys, it')"
    and rest: "list_all2 (\<lambda>item ys. \<exists>it'. spread (item_iterator item) = Some (ys, it'))
       items' yss'"
    by (auto simp: list_all2_Cons1)
  from spread_ConcatIterator [of 0 items yss', OF _ _ ys] rest Cons
  obtain fin where
    "spread (ConcatIterator items 0 (item_iterator item)) = Some (ys @ concat yss', fin)"
    by auto
  with Cons yss show ?thesis by (simp add: Seq_concat_def)
qed

lemma concat_of_three_items:
  "spread (Seq_concat [ItemSeq (Seq_of [Num 1, Num 2]), ItemValue (Num 3), ItemSeq (Seq_of [Num 4])]) =
     Some ([Num 1, Num 2, Num 3, Num 4],
       ConcatIterator
         [ItemSeq (Seq_of [Num 1, Num 2]), ItemValue (Num 3), ItemSeq (Seq_of [Num 4])] 3
         (ArrayIterator []))"
  by (simp add: Seq_concat_def Seq_of_def new_Seq_def next_ConcatIterator spread_more spread_done)

text \<open>
  Claim C7. A bare item drains as the one-element run of itself. When each item, taken
  as a sequence, drains to a list, the \<open>concat\<close> of the items drains to these lists one
  after the other, from left to right;
  \<open>concat(Seq.of(1,2), 3, Seq.of(4))\<close> drains to \<open>[1,2,3,4]\<close>; and \<open>concat()\<close> is
  \<open>Seq.empty\<close>, whose \<open>next()\<close> reports \<open>done\<close> at once and leaves it as it is.
\<close>

theorem concat_drains_its_items_from_left_to_right:
  "spread (item_iterator (ItemValue v)) = Some ([v], ArrayIterator [])
   \<and> (list_all2 (\<lambda>item ys. \<exists>it'. spread (item_iterator item) = Some (ys, it')) items yss \<longrightarrow>
        (\<exists>fin. spread (Seq_concat items) = Some (concat yss, fin)))
   \<and> spread (Seq_concat
         [ItemSeq (Seq_of [Num 1, Num 2]), ItemValue (Num 3), ItemSeq (Seq_of [Num 4])]) =
       Some ([Num 1, Num 2, Num 3, Num 4],
         ConcatIterator
           [ItemSeq (Seq_of [Num 1, Num 2]), ItemValue (Num 3), ItemSeq (Seq_of [Num 4])] 3
           (ArrayIterator []))
   \<and> Seq_concat [] = Seq_empty
   \<and> seq_next Seq_empty = Some (\<lparr>done = True, value = Undefined\<rparr>, Seq_empty)"
proof (intro conjI impI)
  show "spread (item_iterator (ItemValue v)) = Some ([v], ArrayIterator [])"
    by (simp add: spread_Seq_of)
next
  assume "list_all2 (\<lambda>item ys. \<exists>it'. spread (item_iterator item) = Some (ys, it')) items yss"
  then show "\<exists>fin. spread (Seq_concat items) = Some (concat yss, fin)"
    by (rule spread_Seq_concat)
next
  show "spread (Seq_concat
         [ItemSeq (Seq_of [Num 1, Num 2]), ItemValue (Num 3), ItemSeq (Seq_of [Num 4])]) =
       Some ([Num 1, Num 2, Num 3, Num 4],
         ConcatIterator
           [ItemSeq (Seq_of [Num 1, Num 2]), ItemValue (Num 3), ItemSeq (Seq_of [Num 4])] 3
           (ArrayIterator []))"
    by (rule concat_of_three_items)
next
  show "Seq_concat [] = Seq_empty"
    by (simp add: Seq_concat_def)
next
  show "seq_next Seq_empty = Some (\<lparr>done = True, value = Undefined\<rparr>, Seq_empty)"
    by (simp add: Seq_empty_def new_Seq_def)
qed

theorem concat_drains_its_items_from_left_to_right_witness:
  "\<exists>fin. spread (Seq_concat [ItemValue (Num 9), ItemSeq (Seq_filter is_zero (Seq_of [Num 0, Num 5]))]) =
     Some ([Num 9, Num 0], fin)"
proof -
  have bare: "spread (item_iterator (ItemValue (Num 9))) = Some ([Num 9], ArrayIterator [])"
    by (simp add: spread_Seq_of)
  have filtered: "spread (item_iterator (ItemSeq (Seq_filter is_zero (Seq_of [Num 0, Num 5])))) =
      Some ([Num 0], FilterIterator (ArrayIterator []) 2 is_zero)"
    using spread_filter_of_array [of is_zero "[Num 0, Num 5]"]
    by (simp add: is_zero_def)
  from bare filtered have "list_all2 (\<lambda>item ys. \<exists>it'. spread (item_iterator item) = Some (ys, it'))
      [ItemValue (Num 9), ItemSeq (Seq_filter is_zero (Seq_of [Num 0, Num 5]))] [[Num 9], [Num 0]]"
    by simp
  with concat_drains_its_items_from_left_to_right
    [of _ "[ItemValue (Num 9), ItemSeq (Seq_filter is_zero (Seq_of [Num 0, Num 5]))]"
      "[[Num 9], [Num 0]]"]
  show ?thesis by simp
qed

section \<open>Exhaustion\<close>



text \<open>An iterator that always returns does so now, and still does after a call.\<close>

lemma always_returns_now:
  assumes "always_returns it"
  shows "seq_next it \<noteq> None"
proof
  assume "seq_next it = None"
  then have "pulls (Suc 0) it = None" by simp
  moreover from assms have "pulls (Suc 0) it \<noteq> None"
    unfolding always_returns_def by blast
  ultimately show False by simp
qed




lemma pulls_InfiniteIterator: "pulls n (InfiniteIterator k) \<noteq> None"
  by (induction n arbitrary: k) simp_all

lemma always_returns_InfiniteIterator: "always_returns (InfiniteIterator k)"
  unfolding always_returns_def using pulls_InfiniteIterator by blast













text \<open>
  \<open>initInfinite().filter(v => v === 0)\<close> after its first element: the loop of \<open>filter\<close>
  never ends, so \<open>next()\<close> never returns.
\<close>

lemma filter_of_infinite_never_returns_aux:
  assumes "seq_next it0 = Some y0"
  shows "(\<forall>n. it0 = InfiniteIterator n \<longrightarrow>
            y0 = (\<lparr>done = False, value = Num (int n)\<rparr>, InfiniteIterator (Suc n)))
       \<and> (\<forall>n i. 0 < n \<longrightarrow> it0 \<noteq> FilterIterator (InfiniteIterator n) i is_zero)"
proof (rule seq_next.raw_induct [OF _ assms], goal_cases)
  case (1 nxt it y)
  show ?case
  proof (intro conjI allI impI)
    fix n assume "it = InfiniteIterator n"
    with 1(2) show "y = (\<lparr>done = False, value = Num (int n)\<rparr>, InfiniteIterator (Suc n))"
      by simp
  next
    fix n i assume n: "0 < (n::nat)"
    show "it \<noteq> FilterIterator (InfiniteIterator n) i is_zero"
    proof
      assume it: "it = FilterIterator (InfiniteIterator n) i is_zero"
      with 1(2) obtain r src' where s: "nxt (InfiniteIterator n) = Some (r, src')"
        and y: "(if \<not> done r
          then (if \<not> is_zero (value r) (Num (int i))
                then nxt (FilterIterator src' (Suc i) is_zero)
                else Some (r, FilterIterator src' (Suc i) is_zero))
          else Some (r, FilterIterator src' i is_zero)) = Some y"
        by (auto split: bind_splits)
      from 1(1) [OF s] have "r = \<lparr>done = False, value = Num (int n)\<rparr>"
        "src' = InfiniteIterator (Suc n)"
        by simp_all
      with y n have "nxt (FilterIterator (InfiniteIterator (Suc n)) (Suc i) is_zero) = Some y"
        by (simp add: is_zero_def)
      from 1(1) [OF this] show False by blast
    qed
  qed
qed

lemma filter_of_infinite_never_returns:
  "0 < n \<Longrightarrow> seq_next (FilterIterator (InfiniteIterator n) i is_zero) = None"
  using filter_of_infinite_never_returns_aux
    [of "FilterIterator (InfiniteIterator n) i is_zero"]
  by (cases "seq_next (FilterIterator (InfiniteIterator n) i is_zero)") auto

text \<open>Such a source is one whose calls do not all return.\<close>

lemma filter_of_infinite_not_always_returns:
  "0 < n \<Longrightarrow> \<not> always_returns (FilterIterator (InfiniteIterator n) i is_zero)"
  using always_returns_now [of "FilterIterator (InfiniteIterator n) i is_zero"]
  by (auto simp: filter_of_infinite_never_returns)




end
